theory Spec2Isabelle
  imports Complex_Main "HOL-Library.AList"
begin

section \<open>Directory-listing cache (fsspec/dircache.py)\<close>

subsection \<open>Data model\<close>

text \<open>
  \<^verbatim>\<open>Entry\<close> is the typed dictionary of one listed object; a listing is a list of entries.
  The cache never looks inside a listing.
\<close>

record Entry =
  entry_name :: string
  entry_size :: int
  entry_type :: string

type_synonym Listing = "Entry list"

datatype error = KeyError

text \<open>
  The object state of \<^verbatim>\<open>DirCache\<close>. The two dictionaries \<^verbatim>\<open>_cache\<close> and \<^verbatim>\<open>_times\<close> are
  association lists in insertion order, as Python dictionaries are: assigning to a key
  that is present keeps its position, assigning to a new key appends it
  (\<^const>\<open>AList.update\<close>), and \<^verbatim>\<open>pop\<close>/\<^verbatim>\<open>del\<close> remove it (\<^const>\<open>AList.delete\<close>).
  Timestamps (\<^verbatim>\<open>time.time()\<close>) and the expiry time are real numbers, the values of
  the floats; every operation that reads the clock takes the current time as an argument.

  \<^verbatim>\<open>_q\<close> is \<^verbatim>\<open>functools.lru_cache(max_paths + 1)\<close> wrapped around
  \<^verbatim>\<open>lambda key: self._cache.pop(key, None)\<close>. Of the standard library's LRU cache the
  model keeps what the class can observe: the list of remembered keys, most recently
  used first, never longer than \<^verbatim>\<open>maxsize\<close>.
\<close>

record DirCache =
  dc_cache :: "(string \<times> Listing) list"
  dc_times :: "(string \<times> real) list"
  dc_q :: "string list"
  use_listings_cache :: bool
  listings_expiry_time :: "real option"
  max_paths :: "int option"

definition init :: "bool \<Rightarrow> real option \<Rightarrow> int option \<Rightarrow> DirCache" where
  "init ulc expiry mp =
     \<lparr>dc_cache = [], dc_times = [], dc_q = [],
      use_listings_cache = ulc, listings_expiry_time = expiry, max_paths = mp\<rparr>"

text \<open>The test \<^verbatim>\<open>if self.max_paths:\<close> holds for an integer other than zero.\<close>

definition max_paths_truthy :: "DirCache \<Rightarrow> bool" where
  "max_paths_truthy s = (case max_paths s of None \<Rightarrow> False | Some n \<Rightarrow> n \<noteq> 0)"

text \<open>
  The bound handed to \<^verbatim>\<open>lru_cache\<close> is \<^verbatim>\<open>max_paths + 1\<close>; \<^verbatim>\<open>lru_cache\<close> treats a
  negative bound as zero, which is what \<^const>\<open>nat\<close> does.
\<close>

definition maxsize :: "DirCache \<Rightarrow> nat" where
  "maxsize s = (case max_paths s of None \<Rightarrow> 0 | Some n \<Rightarrow> nat (n + 1))"

subsection \<open>Operations\<close>

text \<open>
  \<^verbatim>\<open>self._q(key)\<close>. A key the LRU cache remembers is a hit: it moves to the front and
  the wrapped function is not called. Any other key is a miss: the wrapped function runs
  (\<^verbatim>\<open>self._cache.pop(key, None)\<close>), the key is remembered as most recent, and the least
  recent key is forgotten when the bound is exceeded. The returned value is ignored by
  every caller.
\<close>

definition q_call :: "DirCache \<Rightarrow> string \<Rightarrow> DirCache" where
  "q_call s key =
     (if key \<in> set (dc_q s) then s\<lparr>dc_q := key # remove1 key (dc_q s)\<rparr>
      else s\<lparr>dc_cache := AList.delete key (dc_cache s),
             dc_q := take (maxsize s) (key # dc_q s)\<rparr>)"

text \<open>
  The expiry test of \<^verbatim>\<open>__getitem__\<close>:
  \<^verbatim>\<open>self._times.get(item, 0) - time.time() < -self.listings_expiry_time\<close>,
  made only when an expiry time is configured. Here the subtraction is exact; the test
  with the subtraction rounded as floats are is \<open>expired_ieee\<close> below.
\<close>

definition expired :: "DirCache \<Rightarrow> string \<Rightarrow> real \<Rightarrow> bool" where
  "expired s item now =
     (case listings_expiry_time s of
        None \<Rightarrow> False
      | Some T \<Rightarrow> (case map_of (dc_times s) item of None \<Rightarrow> 0 | Some t \<Rightarrow> t) - now < - T)"

text \<open>
  \<^verbatim>\<open>__getitem__\<close>. On an expired item \<^verbatim>\<open>del self._cache[item]\<close> runs, which raises
  \<^verbatim>\<open>KeyError\<close> at once when the item is not stored; otherwise the tracker is touched (when
  \<^verbatim>\<open>max_paths\<close> is set) and the final lookup returns the listing or raises. The state is
  returned in either case, since it changes before the exception.
\<close>

definition getitem :: "DirCache \<Rightarrow> string \<Rightarrow> real \<Rightarrow> (error + Listing) \<times> DirCache" where
  "getitem s item now =
     (if expired s item now \<and> map_of (dc_cache s) item = None then (Inl KeyError, s)
      else
        let s1 = (if expired s item now
                  then s\<lparr>dc_cache := AList.delete item (dc_cache s)\<rparr> else s);
            s2 = (if max_paths_truthy s1 then q_call s1 item else s1)
        in (case map_of (dc_cache s2) item of
              None \<Rightarrow> (Inl KeyError, s2)
            | Some v \<Rightarrow> (Inr v, s2)))"

definition clear :: "DirCache \<Rightarrow> DirCache" where
  "clear s = s\<lparr>dc_cache := []\<rparr>"

definition len :: "DirCache \<Rightarrow> nat" where
  "len s = length (dc_cache s)"

text \<open>\<^verbatim>\<open>__contains__\<close>: a read whose \<^verbatim>\<open>KeyError\<close> becomes \<^verbatim>\<open>False\<close>.\<close>

definition contains :: "DirCache \<Rightarrow> string \<Rightarrow> real \<Rightarrow> bool \<times> DirCache" where
  "contains s item now =
     (case getitem s item now of
        (Inl KeyError, s') \<Rightarrow> (False, s')
      | (Inr v, s') \<Rightarrow> (True, s'))"

definition setitem :: "DirCache \<Rightarrow> string \<Rightarrow> Listing \<Rightarrow> real \<Rightarrow> DirCache" where
  "setitem s key val now =
     (if \<not> use_listings_cache s then s
      else
        let s1 = (if max_paths_truthy s then q_call s key else s);
            s2 = s1\<lparr>dc_cache := AList.update key val (dc_cache s1)\<rparr>
        in (if listings_expiry_time s2 \<noteq> None
            then s2\<lparr>dc_times := AList.update key now (dc_times s2)\<rparr> else s2))"

definition delitem :: "DirCache \<Rightarrow> string \<Rightarrow> error + DirCache" where
  "delitem s key =
     (case map_of (dc_cache s) key of
        None \<Rightarrow> Inl KeyError
      | Some v \<Rightarrow> Inr (s\<lparr>dc_cache := AList.delete key (dc_cache s)\<rparr>))"

text \<open>
  \<^verbatim>\<open>__iter__\<close> copies the keys of \<^verbatim>\<open>_cache\<close> into the list \<^verbatim>\<open>entries\<close> and returns the
  generator \<^verbatim>\<open>(k for k in entries if k in self)\<close>. Nothing of the generator runs at the
  call: the test \<^verbatim>\<open>k in self\<close> is made for each key when the consumer reaches it, on the
  state and at the time of that moment. \<^term>\<open>iter s\<close> is the snapshot taken by the call;
  \<^term>\<open>consume s kts\<close> runs the generator over snapshot keys paired with the time at which
  each one is tested, and returns the keys produced and the final state.
\<close>

definition iter :: "DirCache \<Rightarrow> string list" where
  "iter s = map fst (dc_cache s)"

fun consume :: "DirCache \<Rightarrow> (string \<times> real) list \<Rightarrow> string list \<times> DirCache" where
  "consume s [] = ([], s)"
| "consume s ((k, now) # rest) =
     (case contains s k now of
        (b, s') \<Rightarrow> (case consume s' rest of
                      (ks, s'') \<Rightarrow> (if b then k # ks else ks, s'')))"

text \<open>Consuming the whole generator at one instant, as \<^verbatim>\<open>list(cache)\<close> does.\<close>

definition iterate :: "DirCache \<Rightarrow> real \<Rightarrow> string list \<times> DirCache" where
  "iterate s now = consume s (map (\<lambda>k. (k, now)) (iter s))"

text \<open>
  States the class can be in: dictionary keys are distinct, and so are the keys the LRU
  cache remembers, of which there are at most \<^term>\<open>maxsize s\<close>. The constructor
  establishes this and every operation keeps it (lemmas \<open>inv_init\<close> to \<open>inv_consume\<close>).
\<close>

definition dircache_inv :: "DirCache \<Rightarrow> bool" where
  "dircache_inv s =
     (distinct (map fst (dc_cache s)) \<and> distinct (dc_q s) \<and> length (dc_q s) \<le> maxsize s)"

subsection \<open>The expiry test in binary64 arithmetic\<close>

text \<open>
  \<^const>\<open>expired\<close> makes the test of \<^verbatim>\<open>__getitem__\<close> on exact real numbers. The
  interpreter makes it on floats: \<^verbatim>\<open>time.time()\<close> and the stored timestamps are
  binary64 values, and the difference \<^verbatim>\<open>self._times.get(item, 0) - time.time()\<close> is rounded
  to the nearest binary64 value, ties to the even significand, before it is compared with
  \<^verbatim>\<open>-self.listings_expiry_time\<close> (negation is exact). Where the outcome of a claim depends
  on that rounding, the claim is stated on the definitions of this subsection.

  \<^term>\<open>rhe y\<close> is the integer nearest to \<open>y\<close>, the even one of two equally near.
  \<^term>\<open>binade x\<close> is the exponent \<open>k\<close> with \<open>2 powr k \<le> \<bar>x\<bar> < 2 powr (k + 1)\<close>, and
  \<^term>\<open>round53 x\<close> rounds \<open>x\<close> to a significand of 53 bits. The exponent is not bounded:
  the difference of two binary64 values is a multiple of the least subnormal, so the
  subtraction is exact wherever binary64 is subnormal, and a difference that overflows
  lies on the same side of any finite \<^verbatim>\<open>-listings_expiry_time\<close> as the infinity that
  binary64 puts in its place.
\<close>

definition rhe :: "real \<Rightarrow> int" where
  "rhe y =
     (let f = \<lfloor>y\<rfloor> in
        if y - of_int f < 1 / 2 then f
        else if 1 / 2 < y - of_int f then f + 1
        else if even f then f else f + 1)"

definition binade :: "real \<Rightarrow> int" where
  "binade x = \<lfloor>log 2 \<bar>x\<bar>\<rfloor>"

definition round53 :: "real \<Rightarrow> real" where
  "round53 x =
     (if x = 0 then 0
      else 2 powr (of_int (binade x) - 52)
             * of_int (rhe (x / 2 powr (of_int (binade x) - 52))))"

text \<open>The test of \<^verbatim>\<open>__getitem__\<close> with the subtraction rounded as the interpreter does.\<close>

definition expired_ieee :: "DirCache \<Rightarrow> string \<Rightarrow> real \<Rightarrow> bool" where
  "expired_ieee s item now =
     (case listings_expiry_time s of
        None \<Rightarrow> False
      | Some T \<Rightarrow>
          round53 ((case map_of (dc_times s) item of None \<Rightarrow> 0 | Some t \<Rightarrow> t) - now) < - T)"

text \<open>\<^verbatim>\<open>__getitem__\<close> and \<^verbatim>\<open>__contains__\<close>, line by line as above, with that test.\<close>

definition getitem_ieee :: "DirCache \<Rightarrow> string \<Rightarrow> real \<Rightarrow> (error + Listing) \<times> DirCache" where
  "getitem_ieee s item now =
     (if expired_ieee s item now \<and> map_of (dc_cache s) item = None then (Inl KeyError, s)
      else
        let s1 = (if expired_ieee s item now
                  then s\<lparr>dc_cache := AList.delete item (dc_cache s)\<rparr> else s);
            s2 = (if max_paths_truthy s1 then q_call s1 item else s1)
        in (case map_of (dc_cache s2) item of
              None \<Rightarrow> (Inl KeyError, s2)
            | Some v \<Rightarrow> (Inr v, s2)))"

definition contains_ieee :: "DirCache \<Rightarrow> string \<Rightarrow> real \<Rightarrow> bool \<times> DirCache" where
  "contains_ieee s item now =
     (case getitem_ieee s item now of
        (Inl KeyError, s') \<Rightarrow> (False, s')
      | (Inr v, s') \<Rightarrow> (True, s'))"

section \<open>Write transactions (fsspec/transaction.py)\<close>

subsection \<open>Data model\<close>

text \<open>
  A registered file is known to the transaction only through \<^verbatim>\<open>commit()\<close> and
  \<^verbatim>\<open>discard()\<close>. Files are values of a type \<open>'h\<close>; the calls made on them are recorded
  in a trace, and a predicate \<open>raises\<close> says which calls end in an exception.
\<close>

datatype 'h call = Commit 'h | Discard 'h

datatype 'h exn = Raised "'h call"

text \<open>
  The state a \<^verbatim>\<open>Transaction\<close> reads and writes: its list \<^verbatim>\<open>files\<close>, the attributes
  \<^verbatim>\<open>_intrans\<close> and \<^verbatim>\<open>_transaction\<close> of its filesystem (the latter as: it is not
  \<^verbatim>\<open>None\<close>), and the trace of calls made on files so far.
\<close>

record 'h Transaction =
  files :: "'h list"
  fs_intrans :: bool
  fs_transaction :: bool
  calls :: "'h call list"

subsection \<open>Operations\<close>

text \<open>\<^verbatim>\<open>__init__\<close>, for a filesystem in the given state.\<close>

definition init_tx :: "bool \<Rightarrow> bool \<Rightarrow> 'h call list \<Rightarrow> 'h Transaction" where
  "init_tx intrans bound tr =
     \<lparr>files = [], fs_intrans = intrans, fs_transaction = bound, calls = tr\<rparr>"

definition start :: "'h Transaction \<Rightarrow> 'h Transaction" where
  "start s = s\<lparr>files := [], fs_intrans := True\<rparr>"

definition enter :: "'h Transaction \<Rightarrow> 'h Transaction" where
  "enter s = start s"

text \<open>The body of the loop of \<^verbatim>\<open>complete\<close>: which call is made on a file.\<close>

definition finalize_call :: "bool \<Rightarrow> 'h \<Rightarrow> 'h call" where
  "finalize_call commit f = (if commit then Commit f else Discard f)"

text \<open>
  The loop \<^verbatim>\<open>for f in self.files\<close> of \<^verbatim>\<open>complete\<close>. There is no exception handler
  around the call, so the first call that raises ends the loop with its exception.
\<close>

fun finalize :: "('h call \<Rightarrow> bool) \<Rightarrow> bool \<Rightarrow> 'h list \<Rightarrow> 'h call list
                  \<Rightarrow> 'h exn option \<times> 'h call list" where
  "finalize raises commit [] tr = (None, tr)"
| "finalize raises commit (f # fs) tr =
     (if raises (finalize_call commit f)
      then (Some (Raised (finalize_call commit f)), tr @ [finalize_call commit f])
      else finalize raises commit fs (tr @ [finalize_call commit f]))"

text \<open>
  \<^verbatim>\<open>complete\<close>: the two assignments after the loop run only when the loop ends
  without an exception.
\<close>

definition complete_tx ::
  "('h call \<Rightarrow> bool) \<Rightarrow> bool \<Rightarrow> 'h Transaction \<Rightarrow> ('h exn + unit) \<times> 'h Transaction" where
  "complete_tx raises commit s =
     (case finalize raises commit (files s) (calls s) of
        (Some e, tr) \<Rightarrow> (Inl e, s\<lparr>calls := tr\<rparr>)
      | (None, tr) \<Rightarrow> (Inr (), s\<lparr>calls := tr, files := [], fs_intrans := False\<rparr>))"

text \<open>
  \<^verbatim>\<open>__exit__\<close>, given \<^verbatim>\<open>exc_type\<close>: commit exactly when it is \<^verbatim>\<open>None\<close>. The two
  assignments after \<^verbatim>\<open>complete\<close> are skipped when \<^verbatim>\<open>complete\<close> raises.
\<close>

definition exit :: "('h call \<Rightarrow> bool) \<Rightarrow> 'e option \<Rightarrow> 'h Transaction
                     \<Rightarrow> ('h exn + unit) \<times> 'h Transaction" where
  "exit raises exc_type s =
     (case complete_tx raises (exc_type = None) s of
        (Inl e, s') \<Rightarrow> (Inl e, s')
      | (Inr u, s') \<Rightarrow> (Inr (), s'\<lparr>fs_intrans := False, fs_transaction := False\<rparr>))"

text \<open>
  Modelled from the spec: \<^verbatim>\<open>register(handle)\<close>, which appends the handle to the
  transaction's list. The call is made by the file object when it is opened inside a
  transaction; that code is not part of these sources.
\<close>

definition register :: "'h Transaction \<Rightarrow> 'h \<Rightarrow> 'h Transaction" where
  "register s h = s\<lparr>files := files s @ [h]\<rparr>"

text \<open>
  A transaction used as a \<^verbatim>\<open>with\<close> block: \<^verbatim>\<open>__enter__\<close>, a body that registers the
  handles \<open>hs\<close> in order and ends normally (\<open>exc_type = None\<close>) or by an exception, then
  \<^verbatim>\<open>__exit__\<close>.
\<close>

definition scoped :: "('h call \<Rightarrow> bool) \<Rightarrow> 'h Transaction \<Rightarrow> 'h list \<Rightarrow> 'e option
                       \<Rightarrow> ('h exn + unit) \<times> 'h Transaction" where
  "scoped raises s hs exc_type = exit raises exc_type (foldl register (enter s) hs)"

subsection \<open>The remote variant\<close>




definition FileActor_append :: "'h list \<Rightarrow> 'h \<Rightarrow> 'h list" where
  "FileActor_append fs f = fs @ [f]"







section \<open>Properties of the cache\<close>

subsection \<open>Basic facts about the operations\<close>

lemma q_call_config [simp]:
  "use_listings_cache (q_call s k) = use_listings_cache s"
  "listings_expiry_time (q_call s k) = listings_expiry_time s"
  "max_paths (q_call s k) = max_paths s"
  "dc_times (q_call s k) = dc_times s"
  by (simp_all add: q_call_def)

lemma max_paths_truthy_cong [simp]:
  "max_paths_truthy (s\<lparr>dc_cache := c\<rparr>) = max_paths_truthy s"
  "max_paths_truthy (s\<lparr>dc_times := t\<rparr>) = max_paths_truthy s"
  "max_paths_truthy (s\<lparr>dc_q := l\<rparr>) = max_paths_truthy s"
  "max_paths_truthy (q_call s k) = max_paths_truthy s"
  by (simp_all add: max_paths_truthy_def)

lemma maxsize_cong [simp]:
  "maxsize (s\<lparr>dc_cache := c\<rparr>) = maxsize s"
  "maxsize (s\<lparr>dc_times := t\<rparr>) = maxsize s"
  "maxsize (s\<lparr>dc_q := l\<rparr>) = maxsize s"
  "maxsize (q_call s k) = maxsize s"
  by (simp_all add: maxsize_def)

lemma expired_cong [simp]:
  "expired (s\<lparr>dc_cache := c\<rparr>) k now = expired s k now"
  "expired (s\<lparr>dc_q := l\<rparr>) k now = expired s k now"
  "expired (q_call s j) k now = expired s k now"
  by (simp_all add: expired_def split: option.splits)

lemma expired_no_expiry [simp]:
  "listings_expiry_time s = None \<Longrightarrow> \<not> expired s k now"
  by (simp add: expired_def)

lemma capacity_positive:
  "max_paths s = Some n \<Longrightarrow> 0 < n \<Longrightarrow> max_paths_truthy s \<and> maxsize s = Suc (nat n)"
  by (simp add: max_paths_truthy_def maxsize_def nat_add_distrib)

subsection \<open>The recency tracker\<close>

lemma q_call_remembers: "0 < maxsize s \<Longrightarrow> key \<in> set (dc_q (q_call s key))"
  by (cases "maxsize s") (simp_all add: q_call_def)

lemma q_call_hd: "0 < maxsize s \<Longrightarrow> hd (dc_q (q_call s key)) = key"
  by (cases "maxsize s") (simp_all add: q_call_def)

lemma q_call_hit_cache: "key \<in> set (dc_q s) \<Longrightarrow> dc_cache (q_call s key) = dc_cache s"
  by (simp add: q_call_def)

lemma q_call_miss_cache:
  "key \<notin> set (dc_q s) \<Longrightarrow> dc_cache (q_call s key) = AList.delete key (dc_cache s)"
  by (simp add: q_call_def)

lemma q_call_lookup_absent:
  "map_of (dc_cache s) k = None \<Longrightarrow> map_of (dc_cache (q_call s key)) k = None"
  by (simp add: q_call_def delete_conv')

lemma take_length_Cons: "xs \<noteq> [] \<Longrightarrow> take (length xs) (x # xs) = x # butlast xs"
  by (cases xs rule: rev_cases) simp_all

lemma last_notin_butlast: "distinct xs \<Longrightarrow> xs \<noteq> [] \<Longrightarrow> last xs \<notin> set (butlast xs)"
  by (cases xs rule: rev_cases) simp_all

subsection \<open>Writes\<close>

lemma setitem_config [simp]:
  "use_listings_cache (setitem s k v t) = use_listings_cache s"
  "listings_expiry_time (setitem s k v t) = listings_expiry_time s"
  "max_paths (setitem s k v t) = max_paths s"
  by (simp_all add: setitem_def Let_def)

lemma setitem_truthy [simp]:
  "max_paths_truthy (setitem s k v t) = max_paths_truthy s"
  "maxsize (setitem s k v t) = maxsize s"
  by (simp_all add: max_paths_truthy_def maxsize_def)

lemma setitem_lookup:
  "use_listings_cache s \<Longrightarrow> map_of (dc_cache (setitem s p L t)) p = Some L"
  by (simp add: setitem_def Let_def update_conv')

lemma setitem_q:
  "use_listings_cache s \<Longrightarrow> max_paths_truthy s \<Longrightarrow>
   dc_q (setitem s p L t) = dc_q (q_call s p)"
  by (simp add: setitem_def Let_def)

lemma setitem_time:
  "use_listings_cache s \<Longrightarrow> listings_expiry_time s = Some T \<Longrightarrow>
   map_of (dc_times (setitem s p L t)) p = Some t"
  by (simp add: setitem_def Let_def update_conv')

lemma expired_after_set:
  "use_listings_cache s \<Longrightarrow> listings_expiry_time s = Some T \<Longrightarrow>
   expired (setitem s p L t) p t' = (T < t' - t)"
  by (auto simp add: expired_def setitem_time)

subsection \<open>Reads\<close>

lemma getitem_snd:
  "snd (getitem s k now) =
     (if expired s k now \<and> map_of (dc_cache s) k = None then s
      else let s1 = (if expired s k now
                     then s\<lparr>dc_cache := AList.delete k (dc_cache s)\<rparr> else s)
           in (if max_paths_truthy s then q_call s1 k else s1))"
  by (simp add: getitem_def Let_def split: option.splits)

text \<open>A write followed by a read of the same path, before the listing expires.\<close>

lemma get_after_set:
  assumes "use_listings_cache s"
    and "\<not> expired (setitem s p L t) p t'"
    and "max_paths_truthy s \<longrightarrow> 0 < maxsize s"
  shows "fst (getitem (setitem s p L t) p t') = Inr L"
proof -
  let ?s = "setitem s p L t"
  have look: "map_of (dc_cache ?s) p = Some L"
    using assms(1) by (rule setitem_lookup)
  show ?thesis
  proof (cases "max_paths_truthy s")
    case False
    then show ?thesis using assms(2) look by (simp add: getitem_def Let_def)
  next
    case True
    then have "p \<in> set (dc_q ?s)"
      using assms(1,3) by (simp add: setitem_q q_call_remembers)
    then have "dc_cache (q_call ?s p) = dc_cache ?s" by (rule q_call_hit_cache)
    then show ?thesis using True assms(2) look by (simp add: getitem_def Let_def)
  qed
qed

lemma get_absent:
  assumes "map_of (dc_cache s) p = None"
  shows "fst (getitem s p now) = Inl KeyError"
    and "map_of (dc_cache (snd (getitem s p now))) p = None"
  using assms by (simp_all add: getitem_def Let_def q_call_lookup_absent)

lemma get_absent_expired_unchanged:
  "expired s p now \<Longrightarrow> map_of (dc_cache s) p = None \<Longrightarrow> getitem s p now = (Inl KeyError, s)"
  by (simp add: getitem_def)

lemma get_expired:
  assumes "expired s p now"
  shows "fst (getitem s p now) = Inl KeyError"
    and "map_of (dc_cache (snd (getitem s p now))) p = None"
  using assms
  by (simp_all add: getitem_def Let_def q_call_lookup_absent delete_conv')

text \<open>A read of a path the tracker does not remember removes it from the store.\<close>

lemma get_out_of_window:
  assumes "max_paths_truthy s" and "v \<notin> set (dc_q s)"
  shows "fst (getitem s v now) = Inl KeyError"
    and "map_of (dc_cache (snd (getitem s v now))) v = None"
  using assms
  by (simp_all add: getitem_def Let_def q_call_miss_cache delete_conv')

lemma contains_fst:
  "fst (contains s p now) = (\<exists>v. fst (getitem s p now) = Inr v)"
  by (cases "getitem s p now") (auto simp: contains_def split: sum.splits error.splits)

lemma contains_snd: "snd (contains s p now) = snd (getitem s p now)"
  by (cases "getitem s p now") (auto simp: contains_def split: sum.splits error.splits)

lemma contains_absent:
  "map_of (dc_cache s) p = None \<Longrightarrow> fst (contains s p now) = False"
  by (simp add: contains_fst get_absent(1))

lemma contains_truthy [simp]:
  "max_paths_truthy (snd (contains s k now)) = max_paths_truthy s"
  by (simp add: contains_snd getitem_snd Let_def)

lemma getitem_fst_no_capacity:
  "\<not> max_paths_truthy s \<Longrightarrow>
   fst (getitem s k now) =
     (if expired s k now then Inl KeyError
      else case map_of (dc_cache s) k of None \<Rightarrow> Inl KeyError | Some v \<Rightarrow> Inr v)"
  by (simp add: getitem_def Let_def delete_conv' split: option.splits)

lemma getitem_snd_no_capacity:
  "\<not> max_paths_truthy s \<Longrightarrow>
   snd (getitem s k now) =
     (if expired s k now then s\<lparr>dc_cache := AList.delete k (dc_cache s)\<rparr> else s)"
  by (auto simp add: getitem_snd Let_def map_of_eq_None_iff)

text \<open>Without a capacity bound, testing one path does not change what a test of another
  path answers.\<close>

lemma contains_other_no_capacity:
  assumes "\<not> max_paths_truthy s" and "k' \<noteq> k"
  shows "fst (contains (snd (contains s k now)) k' now') = fst (contains s k' now')"
  using assms
  by (simp add: contains_fst contains_snd getitem_fst_no_capacity getitem_snd_no_capacity)

subsection \<open>Iteration\<close>

lemma consume_Cons_fst:
  "fst (consume s ((k, now) # rest)) =
     (if fst (contains s k now) then k # fst (consume (snd (contains s k now)) rest)
      else fst (consume (snd (contains s k now)) rest))"
  by (simp split: prod.splits)

lemma consume_Cons_snd:
  "snd (consume s ((k, now) # rest)) = snd (consume (snd (contains s k now)) rest)"
  by (simp split: prod.splits)

lemma consume_no_capacity:
  assumes "\<not> max_paths_truthy s" and "distinct (map fst kts)"
  shows "fst (consume s kts) = map fst (filter (\<lambda>(k, t). fst (contains s k t)) kts)"
  using assms
proof (induction kts arbitrary: s)
  case Nil
  then show ?case by simp
next
  case (Cons kt kts)
  obtain k now where kt: "kt = (k, now)" by (cases kt)
  let ?s' = "snd (contains s k now)"
  have notin: "k \<notin> fst ` set kts" and dist: "distinct (map fst kts)"
    using Cons.prems(2) by (simp_all add: kt)
  have "\<not> max_paths_truthy ?s'" using Cons.prems(1) by simp
  then have IH: "fst (consume ?s' kts)
                   = map fst (filter (\<lambda>(k', t). fst (contains ?s' k' t)) kts)"
    using dist by (rule Cons.IH)
  have "filter (\<lambda>(k', t). fst (contains ?s' k' t)) kts
          = filter (\<lambda>(k', t). fst (contains s k' t)) kts"
  proof (rule filter_cong[OF refl])
    fix x assume x: "x \<in> set kts"
    obtain k' t where xeq: "x = (k', t)" by (cases x)
    have "k' \<noteq> k" using x notin xeq by force
    then show "(case x of (k', t) \<Rightarrow> fst (contains ?s' k' t))
                 = (case x of (k', t) \<Rightarrow> fst (contains s k' t))"
      using Cons.prems(1) by (simp add: xeq contains_other_no_capacity)
  qed
  with IH show ?case by (simp add: kt consume_Cons_fst del: consume.simps)
qed

subsection \<open>The invariant\<close>

lemma inv_init: "dircache_inv (init ulc expiry mp)"
  by (simp add: dircache_inv_def init_def)

lemma inv_q_call: "dircache_inv s \<Longrightarrow> dircache_inv (q_call s k)"
proof (cases "k \<in> set (dc_q s)")
  case True
  assume inv: "dircache_inv s"
  have "0 < length (dc_q s)" using True by (rule length_pos_if_in_set)
  then have "Suc (length (remove1 k (dc_q s))) = length (dc_q s)"
    using True by (simp add: length_remove1)
  with True inv show ?thesis
    by (simp add: dircache_inv_def q_call_def)
next
  case False
  assume "dircache_inv s"
  with False show ?thesis
    by (auto simp: dircache_inv_def q_call_def distinct_delete dest: in_set_takeD)
qed

lemma inv_cache_delete:
  "dircache_inv s \<Longrightarrow> dircache_inv (s\<lparr>dc_cache := AList.delete k (dc_cache s)\<rparr>)"
  by (simp add: dircache_inv_def distinct_delete)

lemma inv_cache_update:
  "dircache_inv s \<Longrightarrow> dircache_inv (s\<lparr>dc_cache := AList.update k v (dc_cache s)\<rparr>)"
  by (simp add: dircache_inv_def distinct_update)

lemma inv_times_update:
  "dircache_inv s \<Longrightarrow> dircache_inv (s\<lparr>dc_times := ts\<rparr>)"
  by (simp add: dircache_inv_def)

lemma inv_getitem: "dircache_inv s \<Longrightarrow> dircache_inv (snd (getitem s k now))"
  by (simp add: getitem_snd Let_def inv_q_call inv_cache_delete)

lemma inv_contains: "dircache_inv s \<Longrightarrow> dircache_inv (snd (contains s k now))"
  by (simp add: contains_snd inv_getitem)

lemma inv_setitem: "dircache_inv s \<Longrightarrow> dircache_inv (setitem s k v now)"
  by (simp add: setitem_def Let_def inv_q_call inv_cache_update inv_times_update)

lemma inv_delitem: "dircache_inv s \<Longrightarrow> delitem s k = Inr s' \<Longrightarrow> dircache_inv s'"
  by (auto simp: delitem_def inv_cache_delete split: option.splits)

lemma inv_clear: "dircache_inv s \<Longrightarrow> dircache_inv (clear s)"
  by (simp add: clear_def dircache_inv_def)

lemma inv_consume: "dircache_inv s \<Longrightarrow> dircache_inv (snd (consume s kts))"
proof (induction kts arbitrary: s)
  case Nil
  then show ?case by simp
next
  case (Cons kt kts)
  obtain k now where kt: "kt = (k, now)" by (cases kt)
  have "dircache_inv (snd (contains s k now))" using Cons.prems by (rule inv_contains)
  then have "dircache_inv (snd (consume (snd (contains s k now)) kts))" by (rule Cons.IH)
  then show ?case unfolding kt consume_Cons_snd .
qed

subsection \<open>Rounding to binary64\<close>

lemma rhe_of_int [simp]: "rhe (of_int n) = n"
  by (simp add: rhe_def)

lemma rhe_bounds: "of_int (rhe y) \<le> y + 1 / 2" "y - 1 / 2 \<le> of_int (rhe y)"
  unfolding rhe_def Let_def by (auto; linarith)+

lemma rhe_mono: "y \<le> z \<Longrightarrow> rhe y \<le> rhe z"
proof -
  assume yz: "y \<le> z"
  have fl: "\<lfloor>y\<rfloor> \<le> \<lfloor>z\<rfloor>" using yz by (rule floor_mono)
  show ?thesis
  proof (cases "\<lfloor>y\<rfloor> = \<lfloor>z\<rfloor>")
    case True
    then show ?thesis using yz unfolding rhe_def Let_def by auto
  next
    case False
    then have "\<lfloor>y\<rfloor> + 1 \<le> \<lfloor>z\<rfloor>" using fl by simp
    moreover have "rhe y \<le> \<lfloor>y\<rfloor> + 1" unfolding rhe_def Let_def by auto
    moreover have "\<lfloor>z\<rfloor> \<le> rhe z" unfolding rhe_def Let_def by auto
    ultimately show ?thesis by linarith
  qed
qed

lemma rhe_minus: "rhe (- y) = - rhe y"
proof (cases "y \<in> \<int>")
  case True
  then obtain n where "y = of_int n" by (auto elim: Ints_cases)
  then show ?thesis by (simp flip: of_int_minus)
next
  case False
  then have ne: "y \<noteq> of_int \<lfloor>y\<rfloor>" by (metis Ints_of_int)
  then have fl: "\<lfloor>- y\<rfloor> = - \<lfloor>y\<rfloor> - 1"
    by (simp add: floor_minus ceiling_altdef)
  have fr: "y - of_int \<lfloor>y\<rfloor> < 1" "0 \<le> y - of_int \<lfloor>y\<rfloor>" by linarith+
  show ?thesis unfolding rhe_def Let_def fl using fr ne by auto
qed

lemma binade_bounds:
  assumes "x \<noteq> 0"
  shows "2 powr of_int (binade x) \<le> \<bar>x\<bar>" and "\<bar>x\<bar> < 2 powr (of_int (binade x) + 1)"
proof -
  have pos: "0 < \<bar>x\<bar>" using assms by simp
  have "of_int (binade x) \<le> log 2 \<bar>x\<bar>" by (simp add: binade_def)
  then show "2 powr of_int (binade x) \<le> \<bar>x\<bar>"
    using pos by (simp add: le_log_iff)
  have "log 2 \<bar>x\<bar> < of_int (binade x) + 1" by (simp add: binade_def)
  then show "\<bar>x\<bar> < 2 powr (of_int (binade x) + 1)"
    using pos by (simp add: log_less_iff)
qed

lemma binade_unique:
  assumes "2 powr of_int k \<le> \<bar>x\<bar>" and "\<bar>x\<bar> < 2 powr (of_int k + 1)"
  shows "binade x = k"
proof -
  have pos: "0 < \<bar>x\<bar>" using assms(1) by (smt (verit) powr_gt_zero)
  have "of_int k \<le> log 2 \<bar>x\<bar>" using assms(1) pos by (simp add: le_log_iff)
  moreover have "log 2 \<bar>x\<bar> < of_int k + 1" using assms(2) pos by (simp add: log_less_iff)
  ultimately show ?thesis unfolding binade_def by (simp add: floor_unique)
qed

lemma binade_minus [simp]: "binade (- x) = binade x"
  by (simp add: binade_def)

lemma round53_minus: "round53 (- x) = - round53 x"
  by (simp add: round53_def rhe_minus)

lemma binade_mono:
  assumes "0 < x" and "x \<le> y"
  shows "binade x \<le> binade y"
  unfolding binade_def using assms by (intro floor_mono) (simp add: log_le_cancel_iff)


lemma scaled_bounds:
  assumes "0 < x"
  shows "2 ^ 52 \<le> x / 2 powr (of_int (binade x) - 52)"
    and "x / 2 powr (of_int (binade x) - 52) < 2 ^ 53"
proof -
  let ?k = "of_int (binade x) :: real"
  have ne: "x \<noteq> 0" and ab: "\<bar>x\<bar> = x" using assms by simp_all
  have lo: "2 powr ?k \<le> x" and hi: "x < 2 powr (?k + 1)"
    using binade_bounds[OF ne] ab by simp_all
  have inv: "x / 2 powr (?k - 52) = x * 2 powr (52 - ?k)"
    by (simp add: powr_diff field_simps)
  have "2 powr ?k * 2 powr (52 - ?k) \<le> x * 2 powr (52 - ?k)"
    using lo by (intro mult_right_mono) simp_all
  moreover have "2 powr ?k * 2 powr (52 - ?k) = (2::real) ^ 52"
    by (simp flip: powr_add)
  ultimately show "2 ^ 52 \<le> x / 2 powr (?k - 52)" using inv by simp
  have "x * 2 powr (52 - ?k) < 2 powr (?k + 1) * 2 powr (52 - ?k)"
    using hi by (intro mult_strict_right_mono) simp_all
  moreover have "2 powr (?k + 1) * 2 powr (52 - ?k) = (2::real) ^ 53"
    by (simp flip: powr_add)
  ultimately show "x / 2 powr (?k - 52) < 2 ^ 53" using inv by simp
qed

lemma round53_range:
  assumes "0 < x"
  shows "2 powr of_int (binade x) \<le> round53 x"
    and "round53 x \<le> 2 powr (of_int (binade x) + 1)"
proof -
  let ?k = "of_int (binade x) :: real"
  let ?u = "2 powr (?k - 52)"
  have r: "round53 x = ?u * of_int (rhe (x / ?u))"
    using assms by (simp add: round53_def)
  have e52: "(2::real) powr 52 = 2 ^ 52" and e53: "(2::real) powr 53 = 2 ^ 53"
    by simp_all
  have "rhe (of_int (2 ^ 52)) \<le> rhe (x / ?u)"
    using scaled_bounds(1)[OF assms] by (intro rhe_mono) simp
  then have lo: "(2::real) ^ 52 \<le> of_int (rhe (x / ?u))"
    by (simp only: rhe_of_int) (metis of_int_le_iff of_int_numeral of_int_power)
  have "rhe (x / ?u) \<le> rhe (of_int (2 ^ 53))"
    using scaled_bounds(2)[OF assms] by (intro rhe_mono) simp
  then have hi: "of_int (rhe (x / ?u)) \<le> (2::real) ^ 53"
    by (simp only: rhe_of_int) (metis of_int_le_iff of_int_numeral of_int_power)
  have a: "?u * 2 ^ 52 \<le> ?u * of_int (rhe (x / ?u))"
    using lo by (intro mult_left_mono) simp_all
  have b: "?u * 2 ^ 52 = 2 powr ?k"
  proof -
    have "?u * 2 powr 52 = 2 powr ?k" by (subst powr_add[symmetric]) simp
    then show ?thesis unfolding e52 .
  qed
  from a have "2 powr ?k \<le> ?u * of_int (rhe (x / ?u))" by (simp only: b)
  then show "2 powr ?k \<le> round53 x" by (simp only: r)
  have c: "?u * of_int (rhe (x / ?u)) \<le> ?u * 2 ^ 53"
    using hi by (intro mult_left_mono) simp_all
  have d: "?u * 2 ^ 53 = 2 powr (?k + 1)"
  proof -
    have "?u * 2 powr 53 = 2 powr (?k + 1)"
      by (subst powr_add[symmetric]) (simp add: add.commute)
    then show ?thesis unfolding e53 .
  qed
  from c have "?u * of_int (rhe (x / ?u)) \<le> 2 powr (?k + 1)" by (simp only: d)
  then show "round53 x \<le> 2 powr (?k + 1)" by (simp only: r)
qed

lemma round53_pos: "0 < x \<Longrightarrow> 0 < round53 x"
  using round53_range(1)[of x] by (smt (verit) powr_gt_zero)

lemma round53_mono_pos:
  assumes "0 < x" and "x \<le> y"
  shows "round53 x \<le> round53 y"
proof -
  have ypos: "0 < y" using assms by simp
  have kk: "binade x \<le> binade y" using assms by (rule binade_mono)
  show ?thesis
  proof (cases "binade x = binade y")
    case True
    let ?u = "2 powr (of_int (binade y) - 52) :: real"
    have "x / ?u \<le> y / ?u" using assms(2) by (simp add: divide_right_mono)
    then have "rhe (x / ?u) \<le> rhe (y / ?u)" by (rule rhe_mono)
    then have "?u * of_int (rhe (x / ?u)) \<le> ?u * of_int (rhe (y / ?u))"
      by (intro mult_left_mono) simp_all
    then show ?thesis using assms(1) ypos True by (simp add: round53_def)
  next
    case False
    then have "binade x + 1 \<le> binade y" using kk by simp
    then have "(of_int (binade x) + 1 :: real) \<le> of_int (binade y)"
      by (metis of_int_1 of_int_add of_int_le_iff)
    then have "(2::real) powr (of_int (binade x) + 1) \<le> 2 powr of_int (binade y)"
      by (simp add: powr_mono)
    then show ?thesis
      using round53_range(2)[OF assms(1)] round53_range(1)[OF ypos] by linarith
  qed
qed

lemma round53_zero [simp]: "round53 0 = 0"
  by (simp add: round53_def)

lemma round53_mono: "x \<le> y \<Longrightarrow> round53 x \<le> round53 y"
proof -
  assume xy: "x \<le> y"
  consider "0 < x" | "x \<le> 0" "0 \<le> y" | "y < 0" by linarith
  then show ?thesis
  proof cases
    case 1
    then show ?thesis using xy by (rule round53_mono_pos)
  next
    case 2
    have "round53 x \<le> 0"
    proof (cases "x = 0")
      case True
      then show ?thesis by simp
    next
      case False
      then have "0 < - x" using 2(1) by simp
      then have "0 < round53 (- x)" by (rule round53_pos)
      then show ?thesis by (simp add: round53_minus)
    qed
    moreover have "0 \<le> round53 y"
    proof (cases "y = 0")
      case True
      then show ?thesis by simp
    next
      case False
      then have "0 < y" using 2(2) by simp
      then show ?thesis using round53_pos by (simp add: less_imp_le)
    qed
    ultimately show ?thesis by simp
  next
    case 3
    then have "0 < - y" "- y \<le> - x" using xy by simp_all
    then have "round53 (- y) \<le> round53 (- x)" by (rule round53_mono_pos)
    then show ?thesis by (simp add: round53_minus)
  qed
qed

lemma round53_binade:
  assumes "2 powr of_int k \<le> \<bar>x\<bar>" and "\<bar>x\<bar> < 2 powr (of_int k + 1)"
  shows "round53 x = 2 powr (of_int k - 52) * of_int (rhe (x / 2 powr (of_int k - 52)))"
proof -
  have "binade x = k" using assms by (rule binade_unique)
  moreover have "x \<noteq> 0" using assms(1) by (smt (verit) powr_gt_zero)
  ultimately show ?thesis by (simp add: round53_def)
qed


lemma round53_dyadic:
  assumes "\<bar>m\<bar> < 2 ^ 53"
  shows "round53 (of_int m * 2 powr of_int e) = of_int m * 2 powr of_int e"
proof (cases "m = 0")
  case True
  then show ?thesis by simp
next
  case False
  let ?x = "of_int m * 2 powr of_int e :: real"
  let ?k = "binade ?x"
  have ne: "?x \<noteq> 0" using False by simp
  have absx: "\<bar>?x\<bar> = of_int \<bar>m\<bar> * 2 powr of_int e" by (simp add: abs_mult)
  have "of_int \<bar>m\<bar> < (2::real) ^ 53"
    using assms by (metis of_int_less_iff of_int_numeral of_int_power)
  then have "\<bar>?x\<bar> < 2 ^ 53 * 2 powr of_int e"
    unfolding absx by (intro mult_strict_right_mono) simp_all
  also have "\<dots> = 2 powr (53 + of_int e)"
  proof -
    have "(2::real) powr 53 * 2 powr of_int e = 2 powr (53 + of_int e)"
      by (rule powr_add[symmetric])
    then show ?thesis by simp
  qed
  finally have "2 powr of_int ?k < (2::real) powr (53 + of_int e)"
    using binade_bounds(1)[OF ne] by linarith
  then have "(of_int ?k :: real) < 53 + of_int e" by simp
  then have "?k < 53 + e" by linarith
  then have d: "0 \<le> e - ?k + 52" by simp
  define j where "j = nat (e - ?k + 52)"
  have j: "of_int e - (of_int ?k - 52) = (real j)"
    using d by (simp add: j_def)
  have "?x / 2 powr (of_int ?k - 52) = of_int m * 2 powr (of_int e - (of_int ?k - 52))"
    by (simp add: powr_diff)
  also have "\<dots> = of_int m * 2 ^ j"
    unfolding j by (simp add: powr_realpow)
  also have "\<dots> = of_int (m * 2 ^ j)" by simp
  finally have sc: "?x / 2 powr (of_int ?k - 52) = of_int (m * 2 ^ j)" .
  have "round53 ?x = 2 powr (of_int ?k - 52) * of_int (rhe (?x / 2 powr (of_int ?k - 52)))"
    using ne by (simp add: round53_def)
  also have "\<dots> = 2 powr (of_int ?k - 52) * (?x / 2 powr (of_int ?k - 52))"
    unfolding sc rhe_of_int ..
  also have "\<dots> = ?x" by simp
  finally show ?thesis .
qed

lemma round53_of_int: "\<bar>n\<bar> < 2 ^ 53 \<Longrightarrow> round53 (of_int n) = of_int n"
  using round53_dyadic[of n 0] by simp

text \<open>
  On a binary64 expiry time the rounded test never fires where the exact one does not:
  the two tests differ only by entries that the exact test expires and the code keeps.
\<close>

lemma expired_ieee_imp_expired:
  assumes "listings_expiry_time s = Some T" and "round53 T = T"
    and "expired_ieee s k now"
  shows "expired s k now"
proof (rule ccontr)
  let ?d = "(case map_of (dc_times s) k of None \<Rightarrow> 0 | Some t \<Rightarrow> t) - now"
  assume "\<not> expired s k now"
  then have "- T \<le> ?d" using assms(1) by (simp add: expired_def)
  then have "round53 (- T) \<le> round53 ?d" by (rule round53_mono)
  then have "- T \<le> round53 ?d" using assms(2) by (simp add: round53_minus)
  then show False using assms(1,3) by (simp add: expired_ieee_def)
qed

lemma expired_ieee_cong [simp]:
  "expired_ieee (s\<lparr>dc_cache := c\<rparr>) k now = expired_ieee s k now"
  "expired_ieee (s\<lparr>dc_q := l\<rparr>) k now = expired_ieee s k now"
  "expired_ieee (q_call s j) k now = expired_ieee s k now"
  by (simp_all add: expired_ieee_def split: option.splits)

lemma expired_ieee_after_set:
  "use_listings_cache s \<Longrightarrow> listings_expiry_time s = Some T \<Longrightarrow>
   expired_ieee (setitem s p L t) p t' = (round53 (t - t') < - T)"
  by (simp add: expired_ieee_def setitem_time)

lemma getitem_ieee_agrees:
  "expired_ieee s k now = expired s k now \<Longrightarrow> getitem_ieee s k now = getitem s k now"
  by (simp add: getitem_ieee_def getitem_def)

lemma get_ieee_after_set:
  assumes "use_listings_cache s"
    and "\<not> expired_ieee (setitem s p L t) p t'"
    and "max_paths_truthy s \<longrightarrow> 0 < maxsize s"
  shows "fst (getitem_ieee (setitem s p L t) p t') = Inr L"
proof -
  let ?s = "setitem s p L t"
  have look: "map_of (dc_cache ?s) p = Some L"
    using assms(1) by (rule setitem_lookup)
  show ?thesis
  proof (cases "max_paths_truthy s")
    case False
    then show ?thesis using assms(2) look by (simp add: getitem_ieee_def Let_def)
  next
    case True
    then have "p \<in> set (dc_q ?s)"
      using assms(1,3) by (simp add: setitem_q q_call_remembers)
    then have "dc_cache (q_call ?s p) = dc_cache ?s" by (rule q_call_hit_cache)
    then show ?thesis using True assms(2) look by (simp add: getitem_ieee_def Let_def)
  qed
qed

lemma get_ieee_absent:
  assumes "map_of (dc_cache s) p = None"
  shows "fst (getitem_ieee s p now) = Inl KeyError"
  using assms by (simp add: getitem_ieee_def Let_def q_call_lookup_absent)

lemma get_ieee_expired:
  assumes "expired_ieee s p now"
  shows "fst (getitem_ieee s p now) = Inl KeyError"
    and "map_of (dc_cache (snd (getitem_ieee s p now))) p = None"
  using assms
  by (simp_all add: getitem_ieee_def Let_def q_call_lookup_absent delete_conv')

lemma contains_ieee_fst:
  "fst (contains_ieee s p now) = (\<exists>v. fst (getitem_ieee s p now) = Inr v)"
  by (cases "getitem_ieee s p now")
    (auto simp: contains_ieee_def split: sum.splits error.splits)

lemma contains_ieee_absent:
  "map_of (dc_cache s) p = None \<Longrightarrow> fst (contains_ieee s p now) = False"
  by (simp add: contains_ieee_fst get_ieee_absent)

section \<open>Claims about the cache\<close>

subsection \<open>Round trip without expiry and without capacity\<close>

text \<open>
  Claim C7. With caching enabled, no expiry time and no capacity bound (\<^verbatim>\<open>max_paths\<close>
  is \<^verbatim>\<open>None\<close> or zero), storing listing \<open>L\<close> under path \<open>p\<close> at time \<open>t\<close> and reading
  \<open>p\<close> at any time \<open>t'\<close> returns exactly \<open>L\<close>.
\<close>

theorem C7_set_then_get_returns_listing:
  assumes "use_listings_cache s"
    and "listings_expiry_time s = None"
    and "\<not> max_paths_truthy s"
  shows "fst (getitem (setitem s p L t) p t') = Inr L"
  using assms by (simp add: getitem_def setitem_def Let_def update_conv')

theorem C7_witness:
  "use_listings_cache (init True None None)
   \<and> listings_expiry_time (init True None None) = None
   \<and> \<not> max_paths_truthy (init True None None)
   \<and> fst (getitem (setitem (init True None None) ''data/a''
            [\<lparr>entry_name = ''data/a/f'', entry_size = 3, entry_type = ''file''\<rparr>] 0)
          ''data/a'' 1000000)
     = Inr [\<lparr>entry_name = ''data/a/f'', entry_size = 3, entry_type = ''file''\<rparr>]"
  using C7_set_then_get_returns_listing
    [of "init True None None" "''data/a''"
        "[\<lparr>entry_name = ''data/a/f'', entry_size = 3, entry_type = ''file''\<rparr>]" 0 1000000]
  by (simp add: init_def max_paths_truthy_def)

subsection \<open>Expiry\<close>

text \<open>
  Claim C4, as stated: once more than \<open>T\<close> seconds have passed since the write, the
  read fails. The expiry time is the binary64 value written \<^verbatim>\<open>0.7\<close>, the write is made
  at the binary64 time written \<^verbatim>\<open>0.3\<close> and the read at time 1. By the values of these
  floats the time passed, \<open>1 - 0.3\<close>, is more than the expiry time. The interpreter
  rounds \<^verbatim>\<open>0.3 - 1.0\<close>, which lies halfway between two binary64 values, to \<^verbatim>\<open>-0.7\<close>;
  that is not less than \<^verbatim>\<open>-0.7\<close>, the entry is not expired, and the read returns the
  listing.
\<close>

theorem C4_rounding_keeps_stale_entry:
  "(3152519739159347 / 4503599627370496 :: real)
     < 1 - 5404319552844595 / 18014398509481984
   \<and> round53 (5404319552844595 / 18014398509481984 - 1)
       = - (3152519739159347 / 4503599627370496)
   \<and> fst (getitem_ieee
        (setitem (init True (Some (3152519739159347 / 4503599627370496)) None) ''a''
           [\<lparr>entry_name = ''a/f'', entry_size = 1, entry_type = ''file''\<rparr>]
           (5404319552844595 / 18014398509481984))
        ''a'' 1)
     = Inr [\<lparr>entry_name = ''a/f'', entry_size = 1, entry_type = ''file''\<rparr>]"
proof -
  have r: "round53 (5404319552844595 / 18014398509481984 - 1)
             = - (3152519739159347 / 4503599627370496)"
    by (subst round53_binade[of "- 1"]) (simp_all add: rhe_def Let_def powr_neg_numeral)
  let ?s0 = "init True (Some (3152519739159347 / 4503599627370496)) None"
  let ?L = "[\<lparr>entry_name = ''a/f'', entry_size = 1, entry_type = ''file''\<rparr>]"
  have a: "use_listings_cache ?s0"
    and b: "listings_expiry_time ?s0 = Some (3152519739159347 / 4503599627370496)"
    and c: "\<not> max_paths_truthy ?s0"
    by (simp_all add: init_def max_paths_truthy_def)
  have "\<not> expired_ieee (setitem ?s0 ''a'' ?L (5404319552844595 / 18014398509481984)) ''a'' 1"
    unfolding expired_ieee_after_set[OF a b] r by simp
  then have "fst (getitem_ieee (setitem ?s0 ''a'' ?L (5404319552844595 / 18014398509481984))
                ''a'' 1) = Inr ?L"
    using a c by (intro get_ieee_after_set) simp_all
  then show ?thesis using r by simp
qed

text \<open>
  Claim C4, amended. Caching is enabled and the expiry time \<open>T\<close> is a binary64 value
  that is not negative (a capacity bound, if there is one, is not negative either).
  Storing \<open>L\<close> under \<open>p\<close> at time \<open>t\<close> and reading \<open>p\<close> at once returns \<open>L\<close>, and so does
  every read at a time \<open>t'\<close> with \<open>t' - t \<le> T\<close>. Once more than \<open>T\<close> has passed, the
  read fails with \<^verbatim>\<open>KeyError\<close>, the store holds no entry for \<open>p\<close> afterwards, and a
  following \<^verbatim>\<open>p in cache\<close>, at whatever time \<open>t''\<close>, is false, unless the binary64
  difference \<^verbatim>\<open>t - t'\<close> rounds to \<open>- T\<close> itself: then the read still returns \<open>L\<close>.
\<close>

theorem C4_expiry_round_trip_binary64:
  assumes "use_listings_cache s"
    and "listings_expiry_time s = Some T"
    and "0 \<le> T" and "round53 T = T"
    and "case max_paths s of None \<Rightarrow> True | Some n \<Rightarrow> 0 \<le> n"
  shows "fst (getitem_ieee (setitem s p L t) p t) = Inr L
     \<and> (t' - t \<le> T \<longrightarrow> fst (getitem_ieee (setitem s p L t) p t') = Inr L)
     \<and> (T < t' - t \<and> round53 (t - t') \<noteq> - T \<longrightarrow>
          (case getitem_ieee (setitem s p L t) p t' of
             (r, s') \<Rightarrow> r = Inl KeyError \<and> map_of (dc_cache s') p = None
                        \<and> fst (contains_ieee s' p t'') = False))
     \<and> (round53 (t - t') = - T \<longrightarrow> fst (getitem_ieee (setitem s p L t) p t') = Inr L)"
proof -
  let ?s = "setitem s p L t"
  have cap: "max_paths_truthy s \<longrightarrow> 0 < maxsize s"
    using assms(5) by (auto simp: max_paths_truthy_def maxsize_def split: option.splits)
  have kept: "fst (getitem_ieee ?s p u) = Inr L" if "\<not> round53 (t - u) < - T" for u
    using assms(1,2) cap that by (intro get_ieee_after_set) (simp_all add: expired_ieee_after_set)
  have neg: "round53 (- T) = - T" using assms(4) by (simp add: round53_minus)
  have fresh: "fst (getitem_ieee ?s p u) = Inr L" if "u - t \<le> T" for u
  proof -
    have "- T \<le> t - u" using that by simp
    then have "round53 (- T) \<le> round53 (t - u)" by (rule round53_mono)
    then show ?thesis using neg by (intro kept) simp
  qed
  have stale: "fst (getitem_ieee ?s p t') = Inl KeyError
       \<and> map_of (dc_cache (snd (getitem_ieee ?s p t'))) p = None
       \<and> fst (contains_ieee (snd (getitem_ieee ?s p t')) p t'') = False"
    if "T < t' - t" and "round53 (t - t') \<noteq> - T"
  proof -
    have "t - t' \<le> - T" using that(1) by simp
    then have "round53 (t - t') \<le> round53 (- T)" by (rule round53_mono)
    then have "round53 (t - t') < - T" using neg that(2) by simp
    then have "expired_ieee ?s p t'" using assms(1,2) by (simp add: expired_ieee_after_set)
    then show ?thesis by (simp add: get_ieee_expired contains_ieee_absent)
  qed
  have tie: "fst (getitem_ieee ?s p t') = Inr L" if "round53 (t - t') = - T"
    using that by (intro kept) simp
  have now: "fst (getitem_ieee ?s p t) = Inr L" using fresh[of t] assms(3) by simp
  show ?thesis using now fresh[of t'] stale tie
    by (auto split: prod.splits)
qed

text \<open>
  The witness: expiry time 10 and \<^verbatim>\<open>max_paths = 2\<close>, a write at time 100, reads at
  times 100, 110 and 111; and the run of the binary64 values \<^verbatim>\<open>0.7\<close>, \<^verbatim>\<open>0.3\<close> and 1
  above, where the difference rounds to \<open>- T\<close>.
\<close>

theorem C4_witness:
  "fst (getitem_ieee (setitem (init True (Some 10) (Some 2)) ''a'' [] 100) ''a'' 100) = Inr []
   \<and> fst (getitem_ieee (setitem (init True (Some 10) (Some 2)) ''a'' [] 100) ''a'' 110) = Inr []
   \<and> (case getitem_ieee (setitem (init True (Some 10) (Some 2)) ''a'' [] 100) ''a'' 111 of
         (r, s') \<Rightarrow> r = Inl KeyError \<and> map_of (dc_cache s') ''a'' = None
                    \<and> fst (contains_ieee s' ''a'' 112) = False)
   \<and> fst (getitem_ieee
        (setitem (init True (Some (3152519739159347 / 4503599627370496)) None) ''a'' []
           (5404319552844595 / 18014398509481984)) ''a'' 1) = Inr []"
proof -
  have T10: "round53 10 = 10" using round53_of_int[of 10] by simp
  have d11: "round53 (100 - 111) \<noteq> - 10" using round53_of_int[of "- 11"] by simp
  have T07: "round53 (3152519739159347 / 4503599627370496) = 3152519739159347 / 4503599627370496"
    using round53_dyadic[of 3152519739159347 "- 52"] by (simp add: powr_neg_numeral)
  have tie: "round53 (5404319552844595 / 18014398509481984 - 1)
               = - (3152519739159347 / 4503599627370496)"
    by (subst round53_binade[of "- 1"]) (simp_all add: rhe_def Let_def powr_neg_numeral)
  have a: "use_listings_cache (init True (Some 10) (Some 2))"
    and b: "listings_expiry_time (init True (Some 10) (Some 2)) = Some 10"
    and c: "case max_paths (init True (Some 10) (Some 2)) of None \<Rightarrow> True | Some n \<Rightarrow> 0 \<le> n"
    by (simp_all add: init_def)
  have a': "use_listings_cache (init True (Some (3152519739159347 / 4503599627370496)) None)"
    and b': "listings_expiry_time (init True (Some (3152519739159347 / 4503599627370496)) None)
               = Some (3152519739159347 / 4503599627370496)"
    and c': "case max_paths (init True (Some (3152519739159347 / 4503599627370496)) None) of
               None \<Rightarrow> True | Some n \<Rightarrow> 0 \<le> n"
    by (simp_all add: init_def)
  show ?thesis
    using C4_expiry_round_trip_binary64 [OF a b _ T10 c, of "''a''" "[]" 100 110 0]
      C4_expiry_round_trip_binary64 [OF a b _ T10 c, of "''a''" "[]" 100 111 112]
      C4_expiry_round_trip_binary64 [OF a' b' _ T07 c', of "''a''" "[]"
        "5404319552844595 / 18014398509481984" 1 0]
      d11 tie
    by simp
qed

subsection \<open>Capacity\<close>

text \<open>
  Claim C3. With \<^verbatim>\<open>max_paths = N\<close> the claim has the tracker remember the \<open>N\<close> most
  recent distinct touches, so that after \<open>N + 1\<close> distinct paths a read of the first one
  fails. The bound given to \<^verbatim>\<open>lru_cache\<close> is \<^verbatim>\<open>max_paths + 1\<close>: the tracker remembers
  \<open>N + 1\<close> paths. With \<^verbatim>\<open>max_paths = 1\<close>, after writing \<^verbatim>\<open>p1\<close> and then \<^verbatim>\<open>p2\<close>, the
  read of \<^verbatim>\<open>p1\<close> is a hit of the tracker and returns the listing stored for \<^verbatim>\<open>p1\<close>;
  both paths stay stored and remembered.
\<close>

theorem C3_tracker_keeps_one_more:
  "getitem (setitem (setitem (init True None (Some 1))
       ''p1'' [\<lparr>entry_name = ''p1/f'', entry_size = 1, entry_type = ''file''\<rparr>] 0)
       ''p2'' [] 1) ''p1'' 2
   = (Inr [\<lparr>entry_name = ''p1/f'', entry_size = 1, entry_type = ''file''\<rparr>],
      \<lparr>dc_cache = [(''p1'', [\<lparr>entry_name = ''p1/f'', entry_size = 1, entry_type = ''file''\<rparr>]),
                  (''p2'', [])],
       dc_times = [], dc_q = [''p1'', ''p2''],
       use_listings_cache = True, listings_expiry_time = None, max_paths = Some 1\<rparr>)"
  by (simp add: init_def setitem_def getitem_def q_call_def maxsize_def
      max_paths_truthy_def expired_def)

text \<open>
  Claim C6. With caching enabled and a capacity bound \<^verbatim>\<open>max_paths = n > 0\<close>, let \<open>p1\<close>
  be a path the tracker no longer remembers. Writing \<open>L2\<close> under \<open>p1\<close> at time \<open>t\<close> puts
  \<open>p1\<close> at the front of the tracker, and a following read of \<open>p1\<close> (before the listing
  expires, when an expiry time is set) returns \<open>L2\<close>. The write itself cannot fail:
  \<^const>\<open>setitem\<close> has no error result.
\<close>

theorem C6_set_readmits_evicted_path:
  assumes "use_listings_cache s"
    and "max_paths s = Some n" and "0 < n"
    and "p1 \<notin> set (dc_q s)"
    and "case listings_expiry_time s of None \<Rightarrow> True | Some T \<Rightarrow> t' - t \<le> T"
  shows "hd (dc_q (setitem s p1 L2 t)) = p1
     \<and> p1 \<in> set (dc_q (setitem s p1 L2 t))
     \<and> fst (getitem (setitem s p1 L2 t) p1 t') = Inr L2"
proof -
  have cap: "max_paths_truthy s" "0 < maxsize s"
    using capacity_positive[OF assms(2,3)] by simp_all
  have fresh: "\<not> expired (setitem s p1 L2 t) p1 t'"
  proof (cases "listings_expiry_time s")
    case None
    then show ?thesis by simp
  next
    case (Some T)
    with assms(1,5) show ?thesis by (simp add: expired_after_set)
  qed
  have "fst (getitem (setitem s p1 L2 t) p1 t') = Inr L2"
    using assms(1) fresh cap by (intro get_after_set) simp_all
  then show ?thesis
    using assms(1) cap by (simp add: setitem_q q_call_hd q_call_remembers)
qed

text \<open>
  The witness: with \<^verbatim>\<open>max_paths = 1\<close>, writing \<^verbatim>\<open>a\<close>, \<^verbatim>\<open>b\<close>, \<^verbatim>\<open>c\<close> leaves the tracker
  with \<^verbatim>\<open>c\<close> and \<^verbatim>\<open>b\<close>; a read of \<^verbatim>\<open>a\<close> would fail, and a write of \<^verbatim>\<open>a\<close> brings it back.
\<close>

theorem C6_witness:
  "dc_q (setitem (setitem (setitem (init True None (Some 1))
          ''a'' [] 0) ''b'' [] 1) ''c'' [] 2) = [''c'', ''b'']
   \<and> fst (getitem (setitem (setitem (setitem (init True None (Some 1))
          ''a'' [] 0) ''b'' [] 1) ''c'' [] 2) ''a'' 3) = Inl KeyError
   \<and> hd (dc_q (setitem (setitem (setitem (setitem (init True None (Some 1))
          ''a'' [] 0) ''b'' [] 1) ''c'' [] 2)
          ''a'' [\<lparr>entry_name = ''a/f'', entry_size = 1, entry_type = ''file''\<rparr>] 4)) = ''a''
   \<and> fst (getitem (setitem (setitem (setitem (setitem (init True None (Some 1))
          ''a'' [] 0) ''b'' [] 1) ''c'' [] 2)
          ''a'' [\<lparr>entry_name = ''a/f'', entry_size = 1, entry_type = ''file''\<rparr>] 4) ''a'' 5)
       = Inr [\<lparr>entry_name = ''a/f'', entry_size = 1, entry_type = ''file''\<rparr>]"
  using C6_set_readmits_evicted_path
    [of "setitem (setitem (setitem (init True None (Some 1)) ''a'' [] 0) ''b'' [] 1) ''c'' [] 2"
        1 "''a''" 5 4 "[\<lparr>entry_name = ''a/f'', entry_size = 1, entry_type = ''file''\<rparr>]"]
  by (simp add: init_def setitem_def getitem_def q_call_def maxsize_def
      max_paths_truthy_def expired_def)

text \<open>
  Claim C10, as stated: with a capacity bound, every read of a path that is not stored
  records the path in the tracker. It fails when an expiry time is set and the path has
  no fresh timestamp: the expiry test comes first, its \<^verbatim>\<open>del\<close> raises \<^verbatim>\<open>KeyError\<close>, and
  the tracker is never reached. Here \<^verbatim>\<open>max_paths = 2\<close>, the expiry time is 60, \<^verbatim>\<open>a\<close> was
  written at time 990 and \<^verbatim>\<open>x\<close> never: the read of \<^verbatim>\<open>x\<close> at time 1000 fails and leaves
  the whole state, tracker included, as it was.
\<close>

theorem C10_expiry_check_precedes_tracker:
  "max_paths_truthy (setitem (init True (Some 60) (Some 2)) ''a'' [] 990)
   \<and> map_of (dc_cache (setitem (init True (Some 60) (Some 2)) ''a'' [] 990)) ''x'' = None
   \<and> getitem (setitem (init True (Some 60) (Some 2)) ''a'' [] 990) ''x'' 1000
       = (Inl KeyError, setitem (init True (Some 60) (Some 2)) ''a'' [] 990)
   \<and> dc_q (snd (getitem (setitem (init True (Some 60) (Some 2)) ''a'' [] 990) ''x'' 1000))
       = [''a'']"
  by (simp add: init_def setitem_def getitem_def q_call_def maxsize_def
      max_paths_truthy_def expired_def)

text \<open>
  Claim C10, amended. Let the capacity bound be \<^verbatim>\<open>max_paths = n > 0\<close> and \<open>p\<close> a path
  that is not stored. A read of \<open>p\<close> fails with \<^verbatim>\<open>KeyError\<close>. When the expiry test
  fires for \<open>p\<close> the state is unchanged. When it does not fire (no expiry time, or a
  timestamp of \<open>p\<close> that is still fresh), the read puts \<open>p\<close> at the front of the
  tracker and leaves the store as it was; if the tracker was full and did not remember
  \<open>p\<close>, its least recent path is forgotten, and the next read of that path, at
  whatever time \<open>now'\<close>, fails and removes it from the store.
\<close>

theorem C10_absent_get_touches_tracker:
  assumes "max_paths s = Some n" and "0 < n"
    and "dircache_inv s"
    and "map_of (dc_cache s) p = None"
  shows "fst (getitem s p now) = Inl KeyError
     \<and> (expired s p now \<longrightarrow> snd (getitem s p now) = s)
     \<and> (\<not> expired s p now \<longrightarrow>
          hd (dc_q (snd (getitem s p now))) = p
          \<and> p \<in> set (dc_q (snd (getitem s p now)))
          \<and> dc_cache (snd (getitem s p now)) = dc_cache s
          \<and> (p \<notin> set (dc_q s) \<and> length (dc_q s) = maxsize s \<longrightarrow>
                last (dc_q s) \<notin> set (dc_q (snd (getitem s p now)))
                \<and> fst (getitem (snd (getitem s p now)) (last (dc_q s)) now') = Inl KeyError
                \<and> map_of (dc_cache (snd (getitem (snd (getitem s p now)) (last (dc_q s)) now')))
                     (last (dc_q s)) = None))"
proof -
  have cap: "max_paths_truthy s" "maxsize s = Suc (nat n)"
    using capacity_positive[OF assms(1,2)] by simp_all
  let ?s' = "snd (getitem s p now)"
  have fails: "fst (getitem s p now) = Inl KeyError"
    using assms(4) by (rule get_absent(1))
  have stale: "snd (getitem s p now) = s" if "expired s p now"
    using that assms(4) by (simp add: get_absent_expired_unchanged)
  have touched: "?s' = q_call s p" if "\<not> expired s p now"
    using that cap(1) by (simp add: getitem_snd)
  have front: "hd (dc_q ?s') = p \<and> p \<in> set (dc_q ?s')" if "\<not> expired s p now"
    using touched[OF that] cap by (simp add: q_call_hd q_call_remembers)
  have store: "dc_cache ?s' = dc_cache s" if "\<not> expired s p now"
  proof -
    have "p \<notin> fst ` set (dc_cache s)"
      using assms(4) by (simp add: map_of_eq_None_iff)
    then show ?thesis using touched[OF that] by (simp add: q_call_def)
  qed
  have evict: "last (dc_q s) \<notin> set (dc_q ?s')
        \<and> fst (getitem ?s' (last (dc_q s)) now') = Inl KeyError
        \<and> map_of (dc_cache (snd (getitem ?s' (last (dc_q s)) now'))) (last (dc_q s)) = None"
    if ne: "\<not> expired s p now" and out: "p \<notin> set (dc_q s)"
      and full: "length (dc_q s) = maxsize s"
  proof -
    have nonempty: "dc_q s \<noteq> []" using full cap(2) by auto
    have dist: "distinct (dc_q s)" using assms(3) by (simp add: dircache_inv_def)
    have "dc_q ?s' = p # butlast (dc_q s)"
      using touched[OF ne] out full[symmetric] nonempty
      by (simp add: q_call_def take_length_Cons del: take_Suc_Cons)
    moreover have "last (dc_q s) \<noteq> p" using out nonempty last_in_set by metis
    ultimately have gone: "last (dc_q s) \<notin> set (dc_q ?s')"
      using last_notin_butlast[OF dist nonempty] by simp
    have "max_paths_truthy ?s'" using touched[OF ne] cap(1) by simp
    then show ?thesis using gone get_out_of_window by simp
  qed
  show ?thesis using fails stale front store evict by blast
qed

text \<open>
  The witness: with \<^verbatim>\<open>max_paths = 1\<close> and no expiry, \<^verbatim>\<open>a\<close> and \<^verbatim>\<open>b\<close> are written and
  fill the tracker. The failing read of \<^verbatim>\<open>x\<close> takes the place of \<^verbatim>\<open>a\<close>, which is still
  stored; the next read of \<^verbatim>\<open>a\<close> fails and removes it. The last conjunct is the other
  branch: with an expiry time of 60 the failing read of \<^verbatim>\<open>x\<close> changes nothing.
\<close>

theorem C10_witness:
  "dircache_inv (setitem (setitem (init True None (Some 1)) ''a'' [] 0) ''b'' [] 1)
   \<and> dc_q (setitem (setitem (init True None (Some 1)) ''a'' [] 0) ''b'' [] 1) = [''b'', ''a'']
   \<and> fst (getitem (setitem (setitem (init True None (Some 1)) ''a'' [] 0) ''b'' [] 1) ''x'' 2)
     = Inl KeyError
   \<and> dc_q (snd (getitem (setitem (setitem (init True None (Some 1)) ''a'' [] 0) ''b'' [] 1)
                  ''x'' 2)) = [''x'', ''b'']
   \<and> map_of (dc_cache (snd (getitem (setitem (setitem (init True None (Some 1)) ''a'' [] 0)
                  ''b'' [] 1) ''x'' 2))) ''a'' = Some []
   \<and> fst (getitem (snd (getitem (setitem (setitem (init True None (Some 1)) ''a'' [] 0)
                  ''b'' [] 1) ''x'' 2)) ''a'' 3) = Inl KeyError
   \<and> map_of (dc_cache (snd (getitem (snd (getitem (setitem (setitem (init True None (Some 1))
                  ''a'' [] 0) ''b'' [] 1) ''x'' 2)) ''a'' 3))) ''a'' = None
   \<and> snd (getitem (init True (Some 60) (Some 1)) ''x'' 1000) = init True (Some 60) (Some 1)"
  using C10_absent_get_touches_tracker
      [of "setitem (setitem (init True None (Some 1)) ''a'' [] 0) ''b'' [] 1" 1 "''x''" 2 3]
    C10_absent_get_touches_tracker [of "init True (Some 60) (Some 1)" 1 "''x''" 1000 0]
  by (simp add: init_def setitem_def getitem_def q_call_def maxsize_def
      max_paths_truthy_def expired_def dircache_inv_def)

subsection \<open>Iteration\<close>

text \<open>
  Claim C5, as stated: iteration produces exactly the paths visible when \<^verbatim>\<open>__iter__\<close>
  is called, and does not reflect expirations after that. Two runs of the code differ.
  First, with an expiry time of 10 and \<^verbatim>\<open>a\<close> written at time 0, \<^verbatim>\<open>a\<close> is visible at
  time 5, when the iterator is made; consumed at time 20 the iterator produces nothing,
  because \<^verbatim>\<open>k in self\<close> runs then. Second, with \<^verbatim>\<open>max_paths = 1\<close> and \<^verbatim>\<open>a\<close>, \<^verbatim>\<open>b\<close>,
  \<^verbatim>\<open>c\<close> written, \<^verbatim>\<open>b\<close> and \<^verbatim>\<open>c\<close> are each visible at time 3, yet iterating at that same
  time produces nothing: the test of \<^verbatim>\<open>a\<close> is a miss of the tracker that pushes \<^verbatim>\<open>b\<close>
  out, the test of \<^verbatim>\<open>b\<close> then removes \<^verbatim>\<open>b\<close> and pushes \<^verbatim>\<open>c\<close> out, and so on.
\<close>

theorem C5_iteration_is_not_a_snapshot_of_visibility:
  "iter (setitem (init True (Some 10) None) ''a'' [] 0) = [''a'']
   \<and> fst (contains (setitem (init True (Some 10) None) ''a'' [] 0) ''a'' 5)
   \<and> fst (consume (setitem (init True (Some 10) None) ''a'' [] 0)
            (zip (iter (setitem (init True (Some 10) None) ''a'' [] 0)) [20])) = []
   \<and> iter (setitem (setitem (setitem (init True None (Some 1)) ''a'' [] 0) ''b'' [] 1) ''c'' [] 2)
       = [''a'', ''b'', ''c'']
   \<and> fst (contains (setitem (setitem (setitem (init True None (Some 1))
            ''a'' [] 0) ''b'' [] 1) ''c'' [] 2) ''b'' 3)
   \<and> fst (contains (setitem (setitem (setitem (init True None (Some 1))
            ''a'' [] 0) ''b'' [] 1) ''c'' [] 2) ''c'' 3)
   \<and> fst (iterate (setitem (setitem (setitem (init True None (Some 1))
            ''a'' [] 0) ''b'' [] 1) ''c'' [] 2) 3) = []"
  by (simp add: init_def setitem_def getitem_def contains_def iter_def iterate_def
      q_call_def maxsize_def max_paths_truthy_def expired_def)

text \<open>
  Claim C5, amended. \<^verbatim>\<open>__iter__\<close> copies the keys of the store when it is called; each
  key of the copy is tested with \<^verbatim>\<open>k in self\<close> when the consumer reaches it, on the
  state and at the time of that moment. Without a capacity bound, in a state of the
  class, the keys produced are exactly the keys of the copy that pass the test at the
  time they are reached, in the order of the store (\<open>ts\<close> lists those times; a shorter
  list is an iteration given up early). In particular an iteration consumed whole at one
  time \<open>now\<close> produces exactly the stored paths visible at \<open>now\<close>.
\<close>

theorem C5_iteration_tests_keys_when_consumed:
  assumes "\<not> max_paths_truthy s"
    and "dircache_inv s"
  shows "fst (consume s (zip (iter s) ts))
           = map fst (filter (\<lambda>(k, t). fst (contains s k t)) (zip (iter s) ts))
     \<and> fst (iterate s now) = filter (\<lambda>k. fst (contains s k now)) (iter s)"
proof -
  have d: "distinct (iter s)" using assms(2) by (simp add: iter_def dircache_inv_def)
  have "map fst (zip (iter s) ts) = take (min (length (iter s)) (length ts)) (iter s)"
    by (rule map_fst_zip_take)
  then have "distinct (map fst (zip (iter s) ts))" using d by simp
  then have one: "fst (consume s (zip (iter s) ts))
           = map fst (filter (\<lambda>(k, t). fst (contains s k t)) (zip (iter s) ts))"
    using assms(1) by (intro consume_no_capacity)
  have "distinct (map fst (map (\<lambda>k. (k, now)) (iter s)))"
    using d by (simp add: comp_def)
  then have "fst (iterate s now)
      = map fst (filter (\<lambda>(k, t). fst (contains s k t)) (map (\<lambda>k. (k, now)) (iter s)))"
    unfolding iterate_def using assms(1) by (intro consume_no_capacity)
  also have "\<dots> = filter (\<lambda>k. fst (contains s k now)) (iter s)"
    by (simp add: filter_map comp_def)
  finally show ?thesis using one by simp
qed

text \<open>
  The witness: expiry time 10, \<^verbatim>\<open>a\<close> written at time 0 and \<^verbatim>\<open>b\<close> at time 8. Tested at
  times 9 and 15 both are produced; consumed whole at time 15 only \<^verbatim>\<open>b\<close> is.
\<close>

theorem C5_witness:
  "\<not> max_paths_truthy (setitem (setitem (init True (Some 10) None) ''a'' [] 0) ''b'' [] 8)
   \<and> dircache_inv (setitem (setitem (init True (Some 10) None) ''a'' [] 0) ''b'' [] 8)
   \<and> fst (consume (setitem (setitem (init True (Some 10) None) ''a'' [] 0) ''b'' [] 8)
        (zip (iter (setitem (setitem (init True (Some 10) None) ''a'' [] 0) ''b'' [] 8)) [9, 15]))
      = [''a'', ''b'']
   \<and> fst (iterate (setitem (setitem (init True (Some 10) None) ''a'' [] 0) ''b'' [] 8) 15)
      = [''b'']"
  using C5_iteration_tests_keys_when_consumed
    [of "setitem (setitem (init True (Some 10) None) ''a'' [] 0) ''b'' [] 8" "[9, 15]" 15]
  by (simp add: init_def setitem_def getitem_def contains_def iter_def
      q_call_def maxsize_def max_paths_truthy_def expired_def dircache_inv_def)

section \<open>Properties of transactions\<close>

lemma finalize_call_simps:
  "finalize_call True = Commit" "finalize_call False = Discard"
  by (simp_all add: fun_eq_iff finalize_call_def)

lemma finalize_all_succeed:
  "\<forall>h\<in>set fs. \<not> raises (finalize_call commit h) \<Longrightarrow>
   finalize raises commit fs tr = (None, tr @ map (finalize_call commit) fs)"
  by (induction fs arbitrary: tr) simp_all

lemma finalize_first_failure:
  "\<forall>h\<in>set pre. \<not> raises (finalize_call commit h) \<Longrightarrow> raises (finalize_call commit f) \<Longrightarrow>
   finalize raises commit (pre @ f # post) tr
     = (Some (Raised (finalize_call commit f)), tr @ map (finalize_call commit) (pre @ [f]))"
  by (induction pre arbitrary: tr) simp_all

lemma complete_tx_all_succeed:
  assumes "\<forall>h\<in>set (files s). \<not> raises (finalize_call commit h)"
  shows "complete_tx raises commit s
           = (Inr (), s\<lparr>calls := calls s @ map (finalize_call commit) (files s),
                         files := [], fs_intrans := False\<rparr>)"
  by (simp add: complete_tx_def finalize_all_succeed[OF assms])

lemma complete_tx_first_failure:
  assumes "files s = pre @ f # post"
    and "\<forall>h\<in>set pre. \<not> raises (finalize_call commit h)"
    and "raises (finalize_call commit f)"
  shows "complete_tx raises commit s
           = (Inl (Raised (finalize_call commit f)),
              s\<lparr>calls := calls s @ map (finalize_call commit) (pre @ [f])\<rparr>)"
  by (simp add: complete_tx_def assms(1) finalize_first_failure[OF assms(2,3)])

lemma exit_all_succeed:
  assumes "\<forall>h\<in>set (files s). \<not> raises (finalize_call (exc_type = None) h)"
  shows "exit raises exc_type s
           = (Inr (), s\<lparr>calls := calls s @ map (finalize_call (exc_type = None)) (files s),
                         files := [], fs_intrans := False, fs_transaction := False\<rparr>)"
  by (simp add: exit_def complete_tx_all_succeed[OF assms])

lemma files_foldl_register: "files (foldl register s hs) = files s @ hs"
  by (induction hs arbitrary: s) (simp_all add: register_def)

lemma foldl_register_other [simp]:
  "calls (foldl register s hs) = calls s"
  "fs_intrans (foldl register s hs) = fs_intrans s"
  "fs_transaction (foldl register s hs) = fs_transaction s"
  by (induction hs arbitrary: s) (simp_all add: register_def)

lemma count_list_distinct: "distinct xs \<Longrightarrow> x \<in> set xs \<Longrightarrow> count_list xs x = 1"
  by (induction xs) auto

lemma count_list_calls:
  "count_list (map Commit xs) (Commit x) = count_list xs x"
  "count_list (map Discard xs) (Discard x) = count_list xs x"
  "count_list (map Commit xs) (Discard x) = 0"
  "count_list (map Discard xs) (Commit x) = 0"
  by (induction xs) auto

section \<open>Claims about transactions\<close>

text \<open>
  Claim C1. A transaction is used as a \<^verbatim>\<open>with\<close> block whose body registers the
  handles \<open>hs\<close>, and none of the calls made on them raises. Then \<^verbatim>\<open>__exit__\<close> returns
  normally, and the calls it has added to the trace are \<^verbatim>\<open>commit()\<close> on each handle of
  \<open>hs\<close> in order and nothing else when the body ended normally, \<^verbatim>\<open>discard()\<close> on each
  handle in order and nothing else when it ended by an exception: with every handle
  registered once, each handle gets exactly one call. In both cases the list of
  registered handles ends empty and the filesystem is not marked as in a transaction.
\<close>

theorem C1_scoped_block_finalizes_all:
  assumes "\<forall>h\<in>set hs. \<not> raises (finalize_call (exc_type = None) h)"
    and "distinct hs"
  shows "case scoped raises s hs exc_type of
           (r, s') \<Rightarrow>
             r = Inr ()
             \<and> calls s' = calls s @ map (if exc_type = None then Commit else Discard) hs
             \<and> (\<forall>h\<in>set hs.
                  count_list (drop (length (calls s)) (calls s')) (Commit h)
                    = (if exc_type = None then 1 else 0)
                  \<and> count_list (drop (length (calls s)) (calls s')) (Discard h)
                    = (if exc_type = None then 0 else 1))
             \<and> files s' = [] \<and> \<not> fs_intrans s'"
proof -
  let ?s1 = "foldl register (enter s) hs"
  have fs: "files ?s1 = hs" and cs: "calls (enter s) = calls s"
    by (simp_all add: files_foldl_register enter_def start_def)
  have ok: "\<forall>h\<in>set (files ?s1). \<not> raises (finalize_call (exc_type = None) h)"
    using assms(1) by (simp only: fs)
  show ?thesis
    unfolding scoped_def exit_all_succeed[OF ok]
    using assms(2)
    by (cases exc_type)
      (simp_all add: fs cs finalize_call_simps count_list_calls count_list_distinct)
qed

theorem C1_witness:
  "(case scoped (\<lambda>c. False) (init_tx False True []) [''A'', ''B'', ''C''] (None :: unit option) of
      (r, s') \<Rightarrow> r = Inr () \<and> calls s' = [Commit ''A'', Commit ''B'', Commit ''C'']
                 \<and> files s' = [] \<and> \<not> fs_intrans s')
   \<and> (case scoped (\<lambda>c. False) (init_tx False True []) [''A'', ''B''] (Some ()) of
      (r, s') \<Rightarrow> r = Inr () \<and> calls s' = [Discard ''A'', Discard ''B'']
                 \<and> files s' = [] \<and> \<not> fs_intrans s')"
  using C1_scoped_block_finalizes_all
      [of "[''A'', ''B'', ''C'']" "\<lambda>c. False" "None :: unit option" "init_tx False True []"]
    C1_scoped_block_finalizes_all
      [of "[''A'', ''B'']" "\<lambda>c. False" "Some ()" "init_tx False True []"]
  by (simp add: init_tx_def scoped_def exit_def complete_tx_def enter_def start_def
      register_def finalize_call_def)

text \<open>
  Claim C2, as stated: every registered handle gets its call even when an earlier call
  raises, and afterwards the list is cleared and the filesystem is no longer in a
  transaction. With \<^verbatim>\<open>A\<close> and \<^verbatim>\<open>B\<close> registered and \<^verbatim>\<open>A.commit()\<close> raising,
  \<^verbatim>\<open>complete(True)\<close> ends with that exception: \<^verbatim>\<open>B\<close> gets no call, both handles stay
  registered and the filesystem stays marked as in a transaction.
\<close>

theorem C2_failure_stops_the_sweep:
  "complete_tx (\<lambda>c. c = Commit ''A'') True
     \<lparr>files = [''A'', ''B''], fs_intrans = True, fs_transaction = True, calls = []\<rparr>
   = (Inl (Raised (Commit ''A'')),
      \<lparr>files = [''A'', ''B''], fs_intrans = True, fs_transaction = True,
       calls = [Commit ''A'']\<rparr>)"
  by (simp add: complete_tx_def finalize_call_def)

text \<open>
  Claim C2, amended. \<^verbatim>\<open>complete(commit)\<close> calls the registered handles in the order
  of registration. If no call raises, every handle gets exactly one call, the list is
  cleared and the filesystem is marked as not in a transaction. If the call on a handle
  \<open>f\<close> is the first to raise, \<^verbatim>\<open>complete\<close> ends with that exception: the handles before
  \<open>f\<close> and \<open>f\<close> itself have had their call, those after \<open>f\<close> get none, and the list and
  the mark are left as they were.
\<close>

theorem C2_complete_attempts_until_first_failure:
  "((\<forall>h\<in>set (files s). \<not> raises (finalize_call commit h)) \<longrightarrow>
      complete_tx raises commit s
        = (Inr (), s\<lparr>calls := calls s @ map (finalize_call commit) (files s),
                      files := [], fs_intrans := False\<rparr>))
   \<and> (files s = pre @ f # post \<and> (\<forall>h\<in>set pre. \<not> raises (finalize_call commit h))
        \<and> raises (finalize_call commit f) \<longrightarrow>
      complete_tx raises commit s
        = (Inl (Raised (finalize_call commit f)),
           s\<lparr>calls := calls s @ map (finalize_call commit) (pre @ [f])\<rparr>))"
proof (intro conjI impI)
  assume "\<forall>h\<in>set (files s). \<not> raises (finalize_call commit h)"
  then show "complete_tx raises commit s
        = (Inr (), s\<lparr>calls := calls s @ map (finalize_call commit) (files s),
                      files := [], fs_intrans := False\<rparr>)"
    by (rule complete_tx_all_succeed)
next
  assume "files s = pre @ f # post \<and> (\<forall>h\<in>set pre. \<not> raises (finalize_call commit h))
        \<and> raises (finalize_call commit f)"
  then show "complete_tx raises commit s
        = (Inl (Raised (finalize_call commit f)),
           s\<lparr>calls := calls s @ map (finalize_call commit) (pre @ [f])\<rparr>)"
    by (intro complete_tx_first_failure) simp_all
qed

theorem C2_witness:
  "complete_tx (\<lambda>c. False) False
     \<lparr>files = [''A'', ''B''], fs_intrans = True, fs_transaction = True, calls = []\<rparr>
   = (Inr (), \<lparr>files = [], fs_intrans = False, fs_transaction = True,
               calls = [Discard ''A'', Discard ''B'']\<rparr>)
   \<and> complete_tx (\<lambda>c. c = Commit ''B'') True
     \<lparr>files = [''A'', ''B'', ''C''], fs_intrans = True, fs_transaction = True, calls = []\<rparr>
   = (Inl (Raised (Commit ''B'')),
      \<lparr>files = [''A'', ''B'', ''C''], fs_intrans = True, fs_transaction = True,
       calls = [Commit ''A'', Commit ''B'']\<rparr>)"
  using C2_complete_attempts_until_first_failure
      [of "\<lparr>files = [''A'', ''B''], fs_intrans = True, fs_transaction = True, calls = []\<rparr>"
          "\<lambda>c. False" False "[]" "''A''" "[''B'']"]
    C2_complete_attempts_until_first_failure
      [of "\<lparr>files = [''A'', ''B'', ''C''], fs_intrans = True, fs_transaction = True, calls = []\<rparr>"
          "\<lambda>c. c = Commit ''B''" True "[''A'']" "''B''" "[''C'']"]
  by (simp add: finalize_call_def)

text \<open>
  Claim C8. After \<^verbatim>\<open>start()\<close> the list of registered handles is empty and the
  filesystem is marked as in a transaction, whatever the state before. So the next
  transaction, entered after a \<^verbatim>\<open>complete\<close> or an \<^verbatim>\<open>__exit__\<close> that may have raised
  partway through its handles, starts with an empty list.
\<close>

theorem C8_start_resets:
  "files (start s) = [] \<and> fs_intrans (start s)
   \<and> files (enter (snd (complete_tx raises commit s))) = []
   \<and> fs_intrans (enter (snd (complete_tx raises commit s)))
   \<and> files (enter (snd (exit raises exc_type s))) = []
   \<and> fs_intrans (enter (snd (exit raises exc_type s)))"
  by (simp add: enter_def start_def)

text \<open>
  The witness: a commit that raises at the second of three handles leaves all three
  registered; entering the next transaction empties the list.
\<close>

theorem C8_witness:
  "fst (complete_tx (\<lambda>c. c = Commit ''B'') True
     \<lparr>files = [''A'', ''B'', ''C''], fs_intrans = True, fs_transaction = True, calls = []\<rparr>)
     = Inl (Raised (Commit ''B''))
   \<and> files (snd (complete_tx (\<lambda>c. c = Commit ''B'') True
     \<lparr>files = [''A'', ''B'', ''C''], fs_intrans = True, fs_transaction = True, calls = []\<rparr>))
     = [''A'', ''B'', ''C'']
   \<and> files (enter (snd (complete_tx (\<lambda>c. c = Commit ''B'') True
     \<lparr>files = [''A'', ''B'', ''C''], fs_intrans = True, fs_transaction = True, calls = []\<rparr>)))
     = []
   \<and> fs_intrans (enter (snd (complete_tx (\<lambda>c. c = Commit ''B'') True
     \<lparr>files = [''A'', ''B'', ''C''], fs_intrans = True, fs_transaction = True, calls = []\<rparr>)))"
  using C8_start_resets
    [of "\<lparr>files = [''A'', ''B'', ''C''], fs_intrans = True, fs_transaction = True, calls = []\<rparr>"
        "\<lambda>c. c = Commit ''B''" True "None :: unit option"]
  by (simp add: complete_tx_def finalize_call_def)

subsection \<open>The remote variant\<close>






end
